theory Spec2Isabelle
  imports Main
begin

section \<open>Typed arrays\<close>

text \<open>
  The ring buffer of \<^verbatim>\<open>native-audio-processor.js\<close> lives in a \<^verbatim>\<open>Float32Array\<close>.
  A typed array has a fixed length; it is modelled as a list whose length never changes.
  Sample values are kept abstract (a type with a zero): the model starts after the
  conversion of the incoming numbers to 32-bit floats.
\<close>

datatype error = RangeError | ResumeRejected | ListenRejected | InvokeRejected | ClientError

text \<open>\<^verbatim>\<open>a.subarray(begin, end)\<close> for non-negative indices: both ends are clamped to the length.\<close>

definition subarray :: "nat \<Rightarrow> nat \<Rightarrow> 'a list \<Rightarrow> 'a list" where
  "subarray begin end xs = drop begin (take end xs)"

text \<open>\<^verbatim>\<open>a.subarray(begin)\<close>: up to the end of the array.\<close>

definition subarray_from :: "nat \<Rightarrow> 'a list \<Rightarrow> 'a list" where
  "subarray_from begin xs = drop begin xs"

text \<open>
  \<^verbatim>\<open>target.set(source, offset)\<close> copies \<open>source\<close> into \<open>target\<close> from \<open>offset\<close> on.
  It throws a \<^verbatim>\<open>RangeError\<close> when the source does not fit
  (\<open>length source + offset > length target\<close>), and then copies nothing.
\<close>

definition typed_array_set :: "'a list \<Rightarrow> 'a list \<Rightarrow> nat \<Rightarrow> error + 'a list" where
  "typed_array_set target source offset =
     (if length source + offset > length target then Inl RangeError
      else Inr (take offset target @ source @ drop (offset + length source) target))"

section \<open>The audio worklet processor (ring buffer)\<close>

text \<open>
  The fields of \<^verbatim>\<open>NativeAudioProcessor\<close>. Indices and counts are natural numbers: in
  every state the constructor and the two handlers can reach (\<open>well_formed\<close> below)
  both indices are less than \<open>bufferSize\<close>, so the differences \<open>bufferSize - writeIndex\<close>
  and \<open>bufferSize - readIndex\<close> are never negative in the source either.
\<close>

record 'a processor =
  bufferSize :: nat
  buffer :: "'a list"
  writeIndex :: nat
  readIndex :: nat
  availableSamples :: nat

text \<open>
  The constructor allocates a zero-filled buffer; the source fixes its size at 4800
  (100 ms at 48 kHz). \<open>new_processor\<close> is the constructor with the size as a parameter.
\<close>

definition new_processor :: "nat \<Rightarrow> ('a::zero) processor" where
  "new_processor n =
     \<lparr>bufferSize = n, buffer = replicate n 0, writeIndex = 0, readIndex = 0,
      availableSamples = 0\<rparr>"

definition constructor :: "('a::zero) processor" where
  "constructor = new_processor 4800"

text \<open>A message on the processor's port: audio data, or anything else (ignored).\<close>

datatype 'a message = AudioData "'a list" | OtherMessage

text \<open>
  \<^verbatim>\<open>port.onmessage\<close>: the write side. The result is the outcome (\<open>Inl\<close> an exception thrown
  out of the handler) together with the processor as the handler leaves it. An exception
  from the second \<^verbatim>\<open>set\<close> leaves the first copy in the buffer and the indices untouched.
\<close>

definition onmessage :: "'a message \<Rightarrow> 'a processor \<Rightarrow> (error + unit) \<times> 'a processor" where
  "onmessage m s =
     (case m of
        OtherMessage \<Rightarrow> (Inr (), s)
      | AudioData samples \<Rightarrow>
          (let len = length samples;
               firstPart = min len (bufferSize s - writeIndex s)
           in case typed_array_set (buffer s) (subarray 0 firstPart samples) (writeIndex s) of
                Inl e \<Rightarrow> (Inl e, s)
              | Inr b1 \<Rightarrow>
                  (case (if firstPart < len
                         then typed_array_set b1 (subarray_from firstPart samples) 0
                         else Inr b1) of
                     Inl e \<Rightarrow> (Inl e, s\<lparr>buffer := b1\<rparr>)
                   | Inr b2 \<Rightarrow>
                       (Inr (),
                        s\<lparr>buffer := b2,
                          writeIndex := (writeIndex s + len) mod bufferSize s,
                          availableSamples := min (availableSamples s + len) (bufferSize s)\<rparr>))))"

text \<open>
  \<^verbatim>\<open>process\<close>: the read side. \<open>channel\<close> is \<^verbatim>\<open>outputs[0][0]\<close> (absent when the output has no
  channel); the result carries the return value of \<^verbatim>\<open>process\<close> and the channel as it was
  filled. The source fixes the frame size at 128; \<open>process_frame\<close> takes it as a parameter.
\<close>

definition process_frame ::
  "nat \<Rightarrow> ('a::zero) list option \<Rightarrow> 'a processor \<Rightarrow> (error + bool \<times> 'a list option) \<times> 'a processor"
where
  "process_frame frameSize channel s =
     (case channel of
        None \<Rightarrow> (Inr (True, None), s)
      | Some ch \<Rightarrow>
          if availableSamples s \<ge> frameSize then
            (let firstPart = min frameSize (bufferSize s - readIndex s)
             in case typed_array_set ch
                       (subarray (readIndex s) (readIndex s + firstPart) (buffer s)) 0 of
                  Inl e \<Rightarrow> (Inl e, s)
                | Inr c1 \<Rightarrow>
                    (case (if firstPart < frameSize
                           then typed_array_set c1
                                  (subarray 0 (frameSize - firstPart) (buffer s)) firstPart
                           else Inr c1) of
                       Inl e \<Rightarrow> (Inl e, s)
                     | Inr c2 \<Rightarrow>
                         (Inr (True, Some c2),
                          s\<lparr>readIndex := (readIndex s + frameSize) mod bufferSize s,
                            availableSamples := availableSamples s - frameSize\<rparr>)))
          else (Inr (True, Some (replicate (length ch) 0)), s))"

definition process :: "('a::zero) list option \<Rightarrow> 'a processor \<Rightarrow> (error + bool \<times> 'a list option) \<times> 'a processor" where
  "process = process_frame 128"

text \<open>
  Messages are handled one at a time; an exception thrown by one handler does not keep
  the later messages from being handled.
\<close>

fun deliver :: "'a message list \<Rightarrow> 'a processor \<Rightarrow> (error + unit) list \<times> 'a processor" where
  "deliver [] s = ([], s)"
| "deliver (m # ms) s =
     (case onmessage m s of
        (r, s') \<Rightarrow> (case deliver ms s' of (rs, s'') \<Rightarrow> (r # rs, s'')))"

text \<open>
  A full drain, as the render engine performs it: \<^verbatim>\<open>process\<close> is called with a fresh
  frame for as long as a whole frame is buffered, and the frames are concatenated.
\<close>

function drain :: "nat \<Rightarrow> ('a::zero) processor \<Rightarrow> 'a list \<times> 'a processor" where
  "drain frameSize s =
     (if 0 < frameSize \<and> frameSize \<le> availableSamples s then
        (case process_frame frameSize (Some (replicate frameSize 0)) s of
           (Inr (_, Some frame), s') \<Rightarrow>
             (case drain frameSize s' of (rest, s'') \<Rightarrow> (frame @ rest, s''))
         | (_, s') \<Rightarrow> ([], s'))
      else ([], s))"
  by pat_completeness auto
termination
  apply (relation "measure (\<lambda>(frameSize, s). availableSamples s)")
   apply simp
  apply (auto simp: process_frame_def Let_def split: sum.splits if_splits)
  done

text \<open>
  The buffer as a queue: the samples a consumer has yet to read, oldest first, when the
  indices are in step (\<open>ring_ok\<close>).
\<close>

definition pending :: "'a processor \<Rightarrow> 'a list" where
  "pending s = take (availableSamples s) (rotate (readIndex s) (buffer s))"

definition ring_ok :: "'a processor \<Rightarrow> bool" where
  "ring_ok s \<longleftrightarrow>
     0 < bufferSize s \<and> length (buffer s) = bufferSize s \<and>
     readIndex s < bufferSize s \<and> availableSamples s \<le> bufferSize s \<and>
     writeIndex s = (readIndex s + availableSamples s) mod bufferSize s"

text \<open>What the constructor establishes and every operation keeps.\<close>

definition well_formed :: "'a processor \<Rightarrow> bool" where
  "well_formed s \<longleftrightarrow>
     0 < bufferSize s \<and> length (buffer s) = bufferSize s \<and>
     writeIndex s < bufferSize s \<and> readIndex s < bufferSize s \<and>
     availableSamples s \<le> bufferSize s"

section \<open>The recording store (connection and recording state machine)\<close>

datatype ConnectionState = Disconnected | Connecting | Idle | Recording | Processing

text \<open>
  The session client is an object of an external library. The store calls two of its
  methods; either may throw. Its behaviour is a parameter of the model: \<open>raises\<close> says,
  from the calls received so far, whether the next call throws; \<open>calls\<close> logs every call
  issued to the client, in order.
\<close>

datatype client_call = SendClientMessage string | EnableMic bool

record PipecatClient =
  raises :: "client_call list \<Rightarrow> client_call \<Rightarrow> bool"
  calls :: "client_call list"

definition invoke_client :: "client_call \<Rightarrow> PipecatClient \<Rightarrow> (error + unit) \<times> PipecatClient" where
  "invoke_client c cl =
     (if raises cl (calls cl) c then Inl ClientError else Inr (),
      cl\<lparr>calls := calls cl @ [c]\<rparr>)"

record RecordingState =
  state :: ConnectionState
  client :: "PipecatClient option"
  serverUrl :: "string option"

definition initial_store :: RecordingState where
  "initial_store = \<lparr>state = Disconnected, client = None, serverUrl = None\<rparr>"

definition setClient :: "PipecatClient option \<Rightarrow> RecordingState \<Rightarrow> RecordingState" where
  "setClient c st = st\<lparr>client := c\<rparr>"

definition setServerUrl :: "string option \<Rightarrow> RecordingState \<Rightarrow> RecordingState" where
  "setServerUrl u st = st\<lparr>serverUrl := u\<rparr>"

definition setState :: "ConnectionState \<Rightarrow> RecordingState \<Rightarrow> RecordingState" where
  "setState x st = st\<lparr>state := x\<rparr>"

definition startConnecting :: "RecordingState \<Rightarrow> RecordingState" where
  "startConnecting st = (if state st = Disconnected then st\<lparr>state := Connecting\<rparr> else st)"

definition handleConnected :: "RecordingState \<Rightarrow> RecordingState" where
  "handleConnected st =
     (if state st = Connecting \<or> state st = Disconnected then st\<lparr>state := Idle\<rparr> else st)"

definition handleDisconnected :: "RecordingState \<Rightarrow> RecordingState" where
  "handleDisconnected st = st\<lparr>state := Disconnected\<rparr>"

text \<open>
  \<^verbatim>\<open>startRecording\<close> and \<^verbatim>\<open>stopRecording\<close> return a boolean. The \<^verbatim>\<open>try\<close> block runs the two
  client calls and then sets the state; the \<^verbatim>\<open>catch\<close> returns \<^verbatim>\<open>false\<close> from wherever
  the exception came. The client is a shared object: what the calls did to it stays done.
\<close>

definition startRecording :: "RecordingState \<Rightarrow> bool \<times> RecordingState" where
  "startRecording st =
     (if state st \<noteq> Idle \<or> client st = None then (False, st)
      else
        (case invoke_client (SendClientMessage ''start-recording'') (the (client st)) of
           (Inl e, c1) \<Rightarrow> (False, st\<lparr>client := Some c1\<rparr>)
         | (Inr _, c1) \<Rightarrow>
             (case invoke_client (EnableMic True) c1 of
                (Inl e, c2) \<Rightarrow> (False, st\<lparr>client := Some c2\<rparr>)
              | (Inr _, c2) \<Rightarrow> (True, st\<lparr>client := Some c2, state := Recording\<rparr>))))"

definition stopRecording :: "RecordingState \<Rightarrow> bool \<times> RecordingState" where
  "stopRecording st =
     (if state st \<noteq> Recording \<or> client st = None then (False, st)
      else
        (case invoke_client (EnableMic False) (the (client st)) of
           (Inl e, c1) \<Rightarrow> (False, st\<lparr>client := Some c1\<rparr>)
         | (Inr _, c1) \<Rightarrow>
             (case invoke_client (SendClientMessage ''stop-recording'') c1 of
                (Inl e, c2) \<Rightarrow> (False, st\<lparr>client := Some c2\<rparr>)
              | (Inr _, c2) \<Rightarrow> (True, st\<lparr>client := Some c2, state := Processing\<rparr>))))"

definition handleResponse :: "RecordingState \<Rightarrow> RecordingState" where
  "handleResponse st = (if state st = Processing then st\<lparr>state := Idle\<rparr> else st)"

definition reset :: "RecordingState \<Rightarrow> RecordingState" where
  "reset st = st\<lparr>state := Disconnected, client := None\<rparr>"

text \<open>
  The seven transition operations behind one interface. The first component is what the
  operation returns to its caller: \<open>None\<close> for the operations of type \<^verbatim>\<open>() => void\<close>,
  \<open>Some b\<close> for the two of type \<^verbatim>\<open>() => boolean\<close>.
\<close>

datatype operation =
  StartConnecting | HandleConnected | HandleDisconnected | StartRecording | StopRecording
  | HandleResponse | Reset

fun run :: "operation \<Rightarrow> RecordingState \<Rightarrow> bool option \<times> RecordingState" where
  "run StartConnecting st = (None, startConnecting st)"
| "run HandleConnected st = (None, handleConnected st)"
| "run HandleDisconnected st = (None, handleDisconnected st)"
| "run StartRecording st = (case startRecording st of (b, st') \<Rightarrow> (Some b, st'))"
| "run StopRecording st = (case stopRecording st of (b, st') \<Rightarrow> (Some b, st'))"
| "run HandleResponse st = (None, handleResponse st)"
| "run Reset st = (None, reset st)"

text \<open>
  The transition table as the specification words it (section 4.3): the state an
  operation leads to from a state, \<open>None\<close> where the table has no row (an illegal
  operation). \<open>has_client\<close> is the guard of the two recording rows.
\<close>

fun transition_table :: "ConnectionState \<Rightarrow> operation \<Rightarrow> bool \<Rightarrow> ConnectionState option" where
  "transition_table Disconnected StartConnecting has_client = Some Connecting"
| "transition_table Connecting HandleConnected has_client = Some Idle"
| "transition_table Disconnected HandleConnected has_client = Some Idle"
| "transition_table Idle StartRecording has_client = (if has_client then Some Recording else None)"
| "transition_table Recording StopRecording has_client = (if has_client then Some Processing else None)"
| "transition_table Processing HandleResponse has_client = Some Idle"
| "transition_table from HandleDisconnected has_client = Some Disconnected"
| "transition_table from Reset has_client = Some Disconnected"
| "transition_table from op has_client = None"

definition permitted :: "RecordingState \<Rightarrow> operation \<Rightarrow> ConnectionState option" where
  "permitted st op = transition_table (state st) op (client st \<noteq> None)"

text \<open>
  Whether issuing the calls \<open>cs\<close> to a client, in this order, makes one of them throw;
  and the calls a store's client has received so far.
\<close>

fun any_raises :: "PipecatClient \<Rightarrow> client_call list \<Rightarrow> bool" where
  "any_raises cl [] = False"
| "any_raises cl (c # cs) =
     (raises cl (calls cl) c \<or> any_raises (cl\<lparr>calls := calls cl @ [c]\<rparr>) cs)"

definition client_calls :: "RecordingState \<Rightarrow> client_call list" where
  "client_calls st = (case client st of None \<Rightarrow> [] | Some cl \<Rightarrow> calls cl)"

section \<open>The native audio bridge\<close>

text \<open>
  \<^verbatim>\<open>createNativeAudioBridge\<close> closes over an audio context, a worklet node and the variable
  \<^verbatim>\<open>unlisten\<close>. The event system and the capture backend are external: the model keeps
  the listeners registered for \<^verbatim>\<open>native-audio-data\<close> (each with the handle that removes
  it) and a log of the commands invoked on the backend.
\<close>

datatype AudioContextState = Suspended | Running | Closed

datatype command =
  StartNativeMic "string option" | StopNativeMic | PauseNativeMic | ResumeNativeMic

record bridge =
  audioContextState :: AudioContextState
  unlisten :: "nat option"
  listeners :: "nat list"
  nextListener :: nat
  invoked :: "command list"

text \<open>
  What the outside does during one call of \<^verbatim>\<open>start\<close>: each of the three awaited promises
  may reject.
\<close>

record start_env =
  resume_rejects :: bool
  listen_rejects :: bool
  start_native_mic_rejects :: bool

definition createNativeAudioBridge :: "AudioContextState \<Rightarrow> bridge" where
  "createNativeAudioBridge ctx =
     \<lparr>audioContextState = ctx, unlisten = None, listeners = [], nextListener = 0,
      invoked = []\<rparr>"

text \<open>
  \<^verbatim>\<open>start\<close> as one uninterrupted call: each \<^verbatim>\<open>await\<close> settles before anything else
  touches the bridge. A rejected promise ends the call there; nothing is undone. The
  function is asynchronous, so other calls can run at each \<^verbatim>\<open>await\<close>; \<open>start_begin\<close> and
  \<open>start_continue\<close> below are the same call cut at its awaits.
\<close>

definition start :: "string option \<Rightarrow> start_env \<Rightarrow> bridge \<Rightarrow> (error + unit) \<times> bridge" where
  "start deviceId env s =
     (if audioContextState s = Suspended \<and> resume_rejects env then (Inl ResumeRejected, s)
      else
        (let s1 = (if audioContextState s = Suspended
                   then s\<lparr>audioContextState := Running\<rparr> else s)
         in if unlisten s1 = None \<and> listen_rejects env then (Inl ListenRejected, s1)
            else
              (let s2 = (if unlisten s1 = None
                         then s1\<lparr>unlisten := Some (nextListener s1),
                                 listeners := listeners s1 @ [nextListener s1],
                                 nextListener := Suc (nextListener s1)\<rparr>
                         else s1);
                   s3 = s2\<lparr>invoked := invoked s2 @ [StartNativeMic deviceId]\<rparr>
               in if start_native_mic_rejects env then (Inl InvokeRejected, s3)
                  else (Inr (), s3))))"

definition stop :: "bridge \<Rightarrow> bridge" where
  "stop s =
     s\<lparr>invoked := invoked s @ [StopNativeMic],
       listeners := (case unlisten s of
                       None \<Rightarrow> listeners s
                     | Some h \<Rightarrow> removeAll h (listeners s)),
       unlisten := None\<rparr>"

definition pause :: "bridge \<Rightarrow> bridge" where
  "pause s = s\<lparr>invoked := invoked s @ [PauseNativeMic]\<rparr>"

definition resume :: "bridge \<Rightarrow> bridge" where
  "resume s = s\<lparr>invoked := invoked s @ [ResumeNativeMic]\<rparr>"

text \<open>
  One inbound chunk event: every registered listener posts the payload to the worklet
  once, and every posted message is one ring-buffer write.
\<close>

definition emit :: "'a list \<Rightarrow> bridge \<Rightarrow> 'a message list" where
  "emit payload s = map (\<lambda>h. AudioData payload) (listeners s)"

text \<open>A sequence of \<^verbatim>\<open>start\<close> calls, each with its device id and its environment.\<close>

fun start_all :: "(string option \<times> start_env) list \<Rightarrow> bridge \<Rightarrow> (error + unit) list \<times> bridge" where
  "start_all [] s = ([], s)"
| "start_all ((deviceId, env) # rest) s =
     (case start deviceId env s of
        (r, s') \<Rightarrow> (case start_all rest s' of (rs, s'') \<Rightarrow> (r # rs, s'')))"

definition succeeded :: "error + unit \<Rightarrow> bool" where
  "succeeded r = (case r of Inl e \<Rightarrow> False | Inr u \<Rightarrow> True)"

text \<open>
  \<^verbatim>\<open>start\<close> cut at its awaits. A call that has been issued and has not settled waits
  for one of its three promises: the resumed audio context, the registered listener, or
  the backend's answer to \<^verbatim>\<open>start_native_mic\<close>. Between two awaits the code runs without
  interruption. The test \<^verbatim>\<open>if (!unlisten)\<close> is made before \<^verbatim>\<open>await listen(...)\<close>, the
  assignment to \<^verbatim>\<open>unlisten\<close> after it.
\<close>

datatype pending_start =
  AwaitingResume "string option" | AwaitingListen "string option" | AwaitingInvoke
  | Settled "error + unit"

text \<open>From the test of \<^verbatim>\<open>unlisten\<close> to the next await.\<close>

definition start_subscribe :: "string option \<Rightarrow> bridge \<Rightarrow> pending_start \<times> bridge" where
  "start_subscribe deviceId s =
     (if unlisten s = None then (AwaitingListen deviceId, s)
      else (AwaitingInvoke, s\<lparr>invoked := invoked s @ [StartNativeMic deviceId]\<rparr>))"

text \<open>The call itself, up to its first await.\<close>

definition start_begin :: "string option \<Rightarrow> bridge \<Rightarrow> pending_start \<times> bridge" where
  "start_begin deviceId s =
     (if audioContextState s = Suspended then (AwaitingResume deviceId, s)
      else start_subscribe deviceId s)"

text \<open>
  The awaited promise settles (\<open>rejected\<close> or not) and the call runs on to its next await
  or to its end. A listener is registered, and its handle stored, when \<^verbatim>\<open>listen\<close> resolves.
\<close>

definition start_continue :: "bool \<Rightarrow> pending_start \<Rightarrow> bridge \<Rightarrow> pending_start \<times> bridge" where
  "start_continue rejected p s =
     (case p of
        AwaitingResume deviceId \<Rightarrow>
          if rejected then (Settled (Inl ResumeRejected), s)
          else start_subscribe deviceId (s\<lparr>audioContextState := Running\<rparr>)
      | AwaitingListen deviceId \<Rightarrow>
          if rejected then (Settled (Inl ListenRejected), s)
          else (AwaitingInvoke,
                s\<lparr>unlisten := Some (nextListener s),
                  listeners := listeners s @ [nextListener s],
                  nextListener := Suc (nextListener s),
                  invoked := invoked s @ [StartNativeMic deviceId]\<rparr>)
      | AwaitingInvoke \<Rightarrow>
          (Settled (if rejected then Inl InvokeRejected else Inr ()), s)
      | Settled r \<Rightarrow> (Settled r, s))"

text \<open>The promise a pending call waits for settles as the environment says.\<close>

definition settle :: "start_env \<Rightarrow> pending_start \<Rightarrow> bridge \<Rightarrow> pending_start \<times> bridge" where
  "settle env p s =
     start_continue
       (case p of
          AwaitingResume deviceId \<Rightarrow> resume_rejects env
        | AwaitingListen deviceId \<Rightarrow> listen_rejects env
        | AwaitingInvoke \<Rightarrow> start_native_mic_rejects env
        | Settled r \<Rightarrow> False)
       p s"

text \<open>
  What happens to a bridge, in order: a \<^verbatim>\<open>start\<close> call is issued, the promise awaited by
  the \<open>i\<close>-th issued call settles, or \<^verbatim>\<open>stop\<close> is called. The state is the list of issued
  calls with the bridge.
\<close>

datatype bridge_event = Call "string option" | Settle nat bool | Stop

fun step :: "bridge_event \<Rightarrow> pending_start list \<times> bridge \<Rightarrow> pending_start list \<times> bridge" where
  "step (Call deviceId) (ts, s) =
     (case start_begin deviceId s of (p, s') \<Rightarrow> (ts @ [p], s'))"
| "step (Settle i rejected) (ts, s) =
     (if i < length ts
      then (case start_continue rejected (ts ! i) s of (p, s') \<Rightarrow> (ts[i := p], s'))
      else (ts, s))"
| "step Stop (ts, s) = (ts, stop s)"

fun run_events :: "bridge_event list \<Rightarrow> pending_start list \<times> bridge \<Rightarrow> pending_start list \<times> bridge" where
  "run_events [] c = c"
| "run_events (e # es) c = run_events es (step e c)"

text \<open>
  The listeners registered with the event system are exactly the one whose handle the
  bridge holds, if it holds one.
\<close>

definition subscription_consistent :: "bridge \<Rightarrow> bool" where
  "subscription_consistent s \<longleftrightarrow>
     listeners s = (case unlisten s of None \<Rightarrow> [] | Some h \<Rightarrow> [h])"

declare drain.simps [simp del]

section \<open>Facts about the ring buffer\<close>

lemmas ring_defs = onmessage_def typed_array_set_def subarray_def subarray_from_def Let_def

subsection \<open>What a write leaves alone, and when it throws\<close>

lemma onmessage_frame:
  "readIndex (snd (onmessage m s)) = readIndex s \<and> bufferSize (snd (onmessage m s)) = bufferSize s"
  by (cases m) (simp_all add: onmessage_def Let_def split: sum.splits)

lemma new_processor_well_formed: "0 < n \<Longrightarrow> well_formed (new_processor n)"
  by (simp add: well_formed_def new_processor_def)

lemma onmessage_well_formed:
  assumes "well_formed s"
  shows "well_formed (snd (onmessage m s))"
  using assms by (cases m) (auto simp: ring_defs well_formed_def split: sum.splits if_splits)

lemma deliver_well_formed:
  "well_formed s \<Longrightarrow> well_formed (snd (deliver ms s))"
proof (induction ms arbitrary: s)
  case Nil
  then show ?case by simp
next
  case (Cons m ms)
  from Cons.prems have "well_formed (snd (onmessage m s))" by (rule onmessage_well_formed)
  then have "well_formed (snd (deliver ms (snd (onmessage m s))))" by (rule Cons.IH)
  then show ?case by (cases "onmessage m s"; cases "deliver ms (snd (onmessage m s))") simp
qed

text \<open>
  A write throws exactly when the part of the chunk that wraps to the start of the buffer
  is longer than the buffer.
\<close>

lemma onmessage_raises_iff:
  assumes "well_formed s"
  shows "fst (onmessage (AudioData xs) s) = Inl RangeError \<longleftrightarrow>
         2 * bufferSize s - writeIndex s < length xs"
  using assms by (auto simp: ring_defs well_formed_def min_def split: sum.splits)

lemma onmessage_available:
  assumes "fst (onmessage (AudioData xs) s) = Inr ()"
  shows "availableSamples (snd (onmessage (AudioData xs) s)) =
         min (availableSamples s + length xs) (bufferSize s)"
  using assms by (auto simp: ring_defs split: sum.splits if_splits)

subsection \<open>Writes and reads on the queue of pending samples\<close>

lemma wrap_mod:
  fixes a c :: nat
  assumes "a < 2 * c"
  shows "a mod c = (if a < c then a else a - c)"
proof (cases "a < c")
  case True
  then show ?thesis by simp
next
  case False
  with assms have "a - c < c" by simp
  moreover from False have "a mod c = (a - c) mod c" by (simp add: le_mod_geq)
  ultimately show ?thesis using False by simp
qed

lemma typed_array_set_fits:
  assumes "length src + off \<le> length tgt"
  shows "typed_array_set tgt src off = Inr (take off tgt @ src @ drop (off + length src) tgt)"
  using assms by (simp add: typed_array_set_def)

lemma patch_nth:
  assumes "length src + off \<le> length tgt" and "i < length tgt"
  shows "(take off tgt @ src @ drop (off + length src) tgt) ! i
         = (if off \<le> i \<and> i < off + length src then src ! (i - off) else tgt ! i)"
  using assms by (auto simp: nth_append)

lemma patch_length:
  assumes "length src + off \<le> length tgt"
  shows "length (take off tgt @ src @ drop (off + length src) tgt) = length tgt"
  using assms by simp

text \<open>The state a write without overflow of the buffer's length leaves behind.\<close>

lemma onmessage_fits:
  assumes "length (buffer s) = bufferSize s" and "writeIndex s < bufferSize s"
    and "length xs \<le> bufferSize s"
  shows "\<exists>b. onmessage (AudioData xs) s =
           (Inr (), s\<lparr>buffer := b,
                      writeIndex := (writeIndex s + length xs) mod bufferSize s,
                      availableSamples := min (availableSamples s + length xs) (bufferSize s)\<rparr>)
         \<and> length b = bufferSize s
         \<and> (\<forall>i < bufferSize s. b ! i =
              (if writeIndex s \<le> i \<and> i < writeIndex s + length xs then xs ! (i - writeIndex s)
               else if i + bufferSize s < writeIndex s + length xs
                    then xs ! (i + bufferSize s - writeIndex s)
               else buffer s ! i))"
proof (cases "length xs \<le> bufferSize s - writeIndex s")
  case True
  let ?b = "take (writeIndex s) (buffer s) @ xs @ drop (writeIndex s + length xs) (buffer s)"
  have fit: "length xs + writeIndex s \<le> length (buffer s)" using True assms by simp
  have "onmessage (AudioData xs) s =
           (Inr (), s\<lparr>buffer := ?b,
                      writeIndex := (writeIndex s + length xs) mod bufferSize s,
                      availableSamples := min (availableSamples s + length xs) (bufferSize s)\<rparr>)"
    using True fit by (simp add: onmessage_def Let_def subarray_def typed_array_set_fits)
  moreover have "length ?b = bufferSize s" using fit assms(1) by simp
  moreover have "\<forall>i < bufferSize s. ?b ! i =
              (if writeIndex s \<le> i \<and> i < writeIndex s + length xs then xs ! (i - writeIndex s)
               else if i + bufferSize s < writeIndex s + length xs
                    then xs ! (i + bufferSize s - writeIndex s)
               else buffer s ! i)"
    using True assms fit by (simp add: patch_nth)
  ultimately show ?thesis by blast
next
  case False
  define fp where "fp = bufferSize s - writeIndex s"
  define b1 where "b1 = take (writeIndex s) (buffer s) @ take fp xs @ drop (writeIndex s + length (take fp xs)) (buffer s)"
  define b2 where "b2 = take 0 b1 @ drop fp xs @ drop (0 + length (drop fp xs)) b1"
  have fp: "fp < length xs" "min (length xs) fp = fp" "0 < fp" "fp + writeIndex s = bufferSize s"
    using False assms by (simp_all add: fp_def)
  have fit1: "length (take fp xs) + writeIndex s \<le> length (buffer s)"
    using fp assms by simp
  have len1: "length b1 = bufferSize s"
    unfolding b1_def using fit1 assms(1) patch_length [OF fit1] by simp
  have fit2: "length (drop fp xs) + 0 \<le> length b1"
    using len1 assms(3) by simp
  have len2: "length b2 = bufferSize s"
    unfolding b2_def using patch_length [OF fit2] len1 by simp
  have set1: "typed_array_set (buffer s) (take fp xs) (writeIndex s) = Inr b1"
    unfolding b1_def using fit1 by (rule typed_array_set_fits)
  have set2: "typed_array_set b1 (drop fp xs) 0 = Inr b2"
    unfolding b2_def using fit2 by (rule typed_array_set_fits)
  have run: "onmessage (AudioData xs) s =
           (Inr (), s\<lparr>buffer := b2,
                      writeIndex := (writeIndex s + length xs) mod bufferSize s,
                      availableSamples := min (availableSamples s + length xs) (bufferSize s)\<rparr>)"
    using fp set1 set2
    by (simp add: onmessage_def Let_def subarray_def subarray_from_def fp_def [symmetric])
  have nth: "b2 ! i =
              (if writeIndex s \<le> i \<and> i < writeIndex s + length xs then xs ! (i - writeIndex s)
               else if i + bufferSize s < writeIndex s + length xs
                    then xs ! (i + bufferSize s - writeIndex s)
               else buffer s ! i)" if i: "i < bufferSize s" for i
  proof -
    have i1: "i < length b1" using i len1 by simp
    have i0: "i < length (buffer s)" using i assms(1) by simp
    have n2: "b2 ! i = (if 0 \<le> i \<and> i < 0 + length (drop fp xs) then drop fp xs ! (i - 0) else b1 ! i)"
      unfolding b2_def using fit2 i1 by (rule patch_nth)
    have n1: "b1 ! i = (if writeIndex s \<le> i \<and> i < writeIndex s + length (take fp xs)
                        then take fp xs ! (i - writeIndex s) else buffer s ! i)"
      unfolding b1_def using fit1 i0 by (rule patch_nth)
    show ?thesis
    proof (cases "i < length xs - fp")
      case True
      then have "b2 ! i = xs ! (fp + i)" using n2 fp by simp
      moreover have "\<not> (writeIndex s \<le> i \<and> i < writeIndex s + length xs)"
        using True assms(3) fp by linarith
      moreover have "i + bufferSize s < writeIndex s + length xs" using True fp by linarith
      moreover have "fp + i = i + bufferSize s - writeIndex s" using fp by linarith
      ultimately show ?thesis by simp
    next
      case False
      then have a: "b2 ! i = b1 ! i" using n2 by simp
      have nw: "\<not> i + bufferSize s < writeIndex s + length xs" using False fp by linarith
      show ?thesis
      proof (cases "writeIndex s \<le> i")
        case True
        then have "i - writeIndex s < fp" using i fp by linarith
        then have "b1 ! i = xs ! (i - writeIndex s)" using n1 True fp i by simp
        moreover have "i < writeIndex s + length xs" using i fp by linarith
        ultimately show ?thesis using a True by simp
      next
        case False
        then have "b1 ! i = buffer s ! i" using n1 by simp
        then show ?thesis using a False nw by simp
      qed
    qed
  qed
  from run len2 nth show ?thesis by blast
qed

lemma pending_nth:
  assumes "ring_ok s" and "j < availableSamples s"
  shows "pending s ! j =
         buffer s ! (if readIndex s + j < bufferSize s then readIndex s + j
                     else readIndex s + j - bufferSize s)"
proof -
  from assms have j: "j < length (buffer s)" and r: "readIndex s + j < 2 * bufferSize s"
    and l: "length (buffer s) = bufferSize s"
    by (simp_all add: ring_ok_def)
  have "pending s ! j = rotate (readIndex s) (buffer s) ! j"
    using assms(2) by (simp add: pending_def)
  also have "\<dots> = buffer s ! ((readIndex s + j) mod bufferSize s)"
    using j l by (simp add: nth_rotate)
  finally show ?thesis using wrap_mod [OF r] by simp
qed

lemma pending_length:
  assumes "ring_ok s"
  shows "length (pending s) = availableSamples s"
  using assms by (simp add: pending_def ring_ok_def)

lemma onmessage_pending:
  assumes ok: "ring_ok s" and room: "availableSamples s + length xs \<le> bufferSize s"
  shows "fst (onmessage (AudioData xs) s) = Inr () \<and>
         ring_ok (snd (onmessage (AudioData xs) s)) \<and>
         pending (snd (onmessage (AudioData xs) s)) = pending s @ xs \<and>
         availableSamples (snd (onmessage (AudioData xs) s)) = availableSamples s + length xs"
proof -
  define c where "c = bufferSize s"
  define r where "r = readIndex s"
  define a where "a = availableSamples s"
  define w where "w = writeIndex s"
  define n where "n = length xs"
  have c: "0 < c" "length (buffer s) = c" "r < c" "a \<le> c" "w = (r + a) mod c" "a + n \<le> c"
    using ok room by (simp_all add: ring_ok_def c_def r_def a_def w_def n_def)
  have ra: "r + a < 2 * c" using c by linarith
  have w1: "w < c" unfolding c(5) using c(1) by simp
  have w2: "w = (if r + a < c then r + a else r + a - c)"
    unfolding c(5) using ra by (rule wrap_mod)
  note w = w1 w2
  have "length (buffer s) = bufferSize s" "writeIndex s < bufferSize s" "length xs \<le> bufferSize s"
    using ok room by (simp_all add: ring_ok_def)
  from onmessage_fits [OF this] obtain b where
    run: "onmessage (AudioData xs) s =
           (Inr (), s\<lparr>buffer := b, writeIndex := (w + n) mod c,
                      availableSamples := min (a + n) c\<rparr>)"
    and len: "length b = c"
    and nth: "\<And>i. i < c \<Longrightarrow> b ! i =
              (if w \<le> i \<and> i < w + n then xs ! (i - w)
               else if i + c < w + n then xs ! (i + c - w)
               else buffer s ! i)"
    unfolding c_def w_def n_def a_def by blast
  let ?s' = "s\<lparr>buffer := b, writeIndex := (w + n) mod c, availableSamples := min (a + n) c\<rparr>"
  have av: "availableSamples ?s' = a + n" using c by simp
  have "(w + n) mod c = (r + a + n) mod c"
    using c(5) by (simp add: mod_add_left_eq)
  then have ok': "ring_ok ?s'"
    using c len by (simp add: ring_ok_def c_def [symmetric] r_def [symmetric] add.assoc)
  have "pending ?s' = pending s @ xs"
  proof (rule nth_equalityI)
    show "length (pending ?s') = length (pending s @ xs)"
      using pending_length [OF ok'] pending_length [OF ok] c
      by (simp add: a_def n_def)
  next
    fix j assume "j < length (pending ?s')"
    then have j: "j < a + n" using pending_length [OF ok'] av by simp
    then have j': "j < availableSamples ?s'" using av by simp
    define p where "p = (if r + j < c then r + j else r + j - c)"
    have p: "p < c" using c(3,6) j by (auto simp: p_def)
    have "pending ?s' ! j = b ! p"
      using pending_nth [OF ok' j'] by (simp add: p_def r_def c_def)
    also have "\<dots> = (if w \<le> p \<and> p < w + n then xs ! (p - w)
               else if p + c < w + n then xs ! (p + c - w)
               else buffer s ! p)"
      using nth [OF p] .
    finally have lhs: "pending ?s' ! j = (if w \<le> p \<and> p < w + n then xs ! (p - w)
               else if p + c < w + n then xs ! (p + c - w)
               else buffer s ! p)" .
    show "pending ?s' ! j = (pending s @ xs) ! j"
    proof (cases "j < a")
      case True
      then have "(pending s @ xs) ! j = buffer s ! p"
        using pending_nth [OF ok, of j] pending_length [OF ok]
        by (simp add: nth_append a_def r_def c_def p_def)
      moreover have "\<not> (w \<le> p \<and> p < w + n)" "\<not> p + c < w + n"
        using True c(3,4,6) w(2) j by (auto simp: p_def split: if_splits)
      ultimately show ?thesis using lhs by auto
    next
      case False
      then have rhs: "(pending s @ xs) ! j = xs ! (j - a)"
        using pending_length [OF ok] by (simp add: nth_append a_def)
      have "(w \<le> p \<and> p < w + n \<and> p - w = j - a) \<or>
            (\<not> (w \<le> p \<and> p < w + n) \<and> p + c < w + n \<and> p + c - w = j - a)"
        using False c(3,4,6) w(2) j by (auto simp: p_def split: if_splits)
      then show ?thesis using lhs rhs by auto
    qed
  qed
  with run ok' av show ?thesis by (simp add: a_def n_def)
qed

lemma rotate_read:
  assumes "r < length buf"
  shows "rotate r buf = drop r buf @ take r buf"
  using assms rotate_drop_take [of r buf] by simp

lemma process_frame_pending:
  assumes ok: "ring_ok s" and enough: "frameSize \<le> availableSamples s"
    and ch: "length ch = frameSize"
  shows "process_frame frameSize (Some ch) s =
           (Inr (True, Some (take frameSize (pending s))),
            s\<lparr>readIndex := (readIndex s + frameSize) mod bufferSize s,
              availableSamples := availableSamples s - frameSize\<rparr>)"
proof -
  define c where "c = bufferSize s"
  define r where "r = readIndex s"
  define buf where "buf = buffer s"
  have c: "length buf = c" "r < c" "frameSize \<le> c"
    using ok enough by (simp_all add: ring_ok_def c_def r_def buf_def)
  have "take frameSize (pending s) = take frameSize (rotate r buf)"
    using enough by (simp add: pending_def r_def buf_def min_def)
  also have "rotate r buf = drop r buf @ take r buf"
    using c by (simp only: rotate_read)
  finally have pend: "take frameSize (pending s) = take frameSize (drop r buf @ take r buf)" .
  show ?thesis
  proof (cases "frameSize \<le> c - r")
    case True
    have sub: "subarray r (r + frameSize) buf = take frameSize (drop r buf)"
      by (simp add: subarray_def drop_take)
    have len: "length (take frameSize (drop r buf)) = frameSize"
      using True c by simp
    have "typed_array_set ch (take frameSize (drop r buf)) 0 = Inr (take frameSize (drop r buf))"
      using len ch by (simp add: typed_array_set_def)
    moreover have "take frameSize (drop r buf @ take r buf) = take frameSize (drop r buf)"
      using True c by simp
    ultimately show ?thesis
      using True enough sub pend
      by (simp add: process_frame_def Let_def c_def [symmetric] r_def [symmetric]
          buf_def [symmetric] min_def)
  next
    case False
    define fp where "fp = c - r"
    have fp: "fp < frameSize" "min frameSize fp = fp" "r + fp = c" "frameSize - fp \<le> r"
      using False c by (simp_all add: fp_def)
    have sub1: "subarray r (r + fp) buf = drop r buf"
      using fp c by (simp add: subarray_def)
    have sub2: "subarray 0 (frameSize - fp) buf = take (frameSize - fp) buf"
      by (simp add: subarray_def)
    have l1: "length (drop r buf) = fp" using c by (simp add: fp_def)
    have l2: "length (take (frameSize - fp) buf) = frameSize - fp" using fp c by simp
    have set1: "typed_array_set ch (drop r buf) 0 = Inr (drop r buf @ drop fp ch)"
      using l1 ch fp by (simp add: typed_array_set_def)
    have set2: "typed_array_set (drop r buf @ drop fp ch) (take (frameSize - fp) buf) fp
                = Inr (drop r buf @ take (frameSize - fp) buf)"
      using l1 l2 ch fp by (simp add: typed_array_set_def)
    have "take frameSize (drop r buf @ take r buf) = drop r buf @ take (frameSize - fp) buf"
      using l1 fp by (simp add: min_def)
    then show ?thesis
      using fp enough sub1 sub2 set1 set2 pend
      by (simp add: process_frame_def Let_def c_def [symmetric] r_def [symmetric]
          buf_def [symmetric] fp_def [symmetric])
  qed
qed

lemma process_frame_ring_ok:
  assumes ok: "ring_ok s" and enough: "frameSize \<le> availableSamples s"
  defines "s' \<equiv> s\<lparr>readIndex := (readIndex s + frameSize) mod bufferSize s,
                   availableSamples := availableSamples s - frameSize\<rparr>"
  shows "ring_ok s'" and "pending s' = drop frameSize (pending s)"
proof -
  define c where "c = bufferSize s"
  define r where "r = readIndex s"
  define a where "a = availableSamples s"
  define R where "R = rotate r (buffer s)"
  have c: "0 < c" "length (buffer s) = c" "r < c" "a \<le> c" "writeIndex s = (r + a) mod c"
      "frameSize \<le> a"
    using ok enough by (simp_all add: ring_ok_def c_def r_def a_def)
  have "((r + frameSize) mod c + (a - frameSize)) mod c = (r + frameSize + (a - frameSize)) mod c"
    by (rule mod_add_left_eq)
  also have "r + frameSize + (a - frameSize) = r + a" using c(6) by simp
  finally have w: "((r + frameSize) mod c + (a - frameSize)) mod c = (r + a) mod c" .
  show "ring_ok s'"
    using c w by (simp add: ring_ok_def s'_def c_def [symmetric] r_def [symmetric] a_def [symmetric])
  have lR: "length R = c" using c by (simp add: R_def)
  have "rotate ((r + frameSize) mod c) (buffer s) = rotate (frameSize + r) (buffer s)"
    using c(2) rotate_conv_mod [of "frameSize + r" "buffer s"] by (simp add: add.commute)
  also have "\<dots> = rotate frameSize R"
    by (simp add: R_def rotate_rotate)
  finally have rot: "rotate ((r + frameSize) mod c) (buffer s) = rotate frameSize R" .
  have "take (a - frameSize) (rotate frameSize R) = drop frameSize (take a R)"
  proof (cases "frameSize < c")
    case True
    then have "rotate frameSize R = drop frameSize R @ take frameSize R"
      using lR by (simp add: rotate_read)
    then show ?thesis using c lR True by (simp add: drop_take)
  next
    case False
    then have "a - frameSize = 0" "length (take a R) \<le> frameSize" using c lR by simp_all
    then show ?thesis by simp
  qed
  then show "pending s' = drop frameSize (pending s)"
    using rot by (simp add: pending_def s'_def c_def [symmetric] r_def [symmetric]
        a_def [symmetric] R_def [symmetric])
qed

lemma drain_stop:
  assumes "\<not> (0 < frameSize \<and> frameSize \<le> availableSamples s)"
  shows "drain frameSize s = ([], s)"
  by (subst drain.simps) (use assms in auto)

lemma drain_step:
  assumes "0 < frameSize" and "frameSize \<le> availableSamples s"
    and "process_frame frameSize (Some (replicate frameSize 0)) s = (Inr (b, Some frame), s')"
  shows "drain frameSize s = (frame @ fst (drain frameSize s'), snd (drain frameSize s'))"
  using assms by (subst drain.simps) (simp add: case_prod_beta)

lemma drain_pending:
  assumes "ring_ok s"
  shows "fst (drain frameSize s) = take (availableSamples s div frameSize * frameSize) (pending s) \<and>
         availableSamples (snd (drain frameSize s)) = availableSamples s mod frameSize \<and>
         pending (snd (drain frameSize s))
           = drop (availableSamples s div frameSize * frameSize) (pending s) \<and>
         ring_ok (snd (drain frameSize s))"
  using assms
proof (induction "availableSamples s" arbitrary: s rule: less_induct)
  case less
  show ?case
  proof (cases "0 < frameSize \<and> frameSize \<le> availableSamples s")
    case False
    then have "frameSize = 0 \<or> availableSamples s < frameSize" by auto
    then show ?thesis using drain_stop [OF False] less.prems by auto
  next
    case True
    then have pos: "0 < frameSize" and enough: "frameSize \<le> availableSamples s" by simp_all
    define s' where "s' = s\<lparr>readIndex := (readIndex s + frameSize) mod bufferSize s,
                              availableSamples := availableSamples s - frameSize\<rparr>"
    have step: "process_frame frameSize (Some (replicate frameSize 0)) s =
                  (Inr (True, Some (take frameSize (pending s))), s')"
      unfolding s'_def using less.prems enough by (rule process_frame_pending) simp
    have ok': "ring_ok s'" and pend': "pending s' = drop frameSize (pending s)"
      unfolding s'_def using less.prems enough by (rule process_frame_ring_ok)+
    have av': "availableSamples s' = availableSamples s - frameSize" by (simp add: s'_def)
    then have "availableSamples s' < availableSamples s" using pos enough by simp
    from less.hyps [OF this ok']
    have ih: "fst (drain frameSize s') =
                take ((availableSamples s - frameSize) div frameSize * frameSize)
                     (drop frameSize (pending s))"
      and ihm: "availableSamples (snd (drain frameSize s')) =
                (availableSamples s - frameSize) mod frameSize"
      and ihp: "pending (snd (drain frameSize s')) =
                drop ((availableSamples s - frameSize) div frameSize * frameSize)
                     (drop frameSize (pending s))"
      and iho: "ring_ok (snd (drain frameSize s'))"
      by (simp_all add: av' pend')
    have d: "drain frameSize s =
               (take frameSize (pending s) @ fst (drain frameSize s'), snd (drain frameSize s'))"
      using pos enough step by (rule drain_step)
    have "availableSamples s div frameSize = Suc ((availableSamples s - frameSize) div frameSize)"
      using pos enough by (simp add: le_div_geq)
    then have whole: "availableSamples s div frameSize * frameSize =
               frameSize + (availableSamples s - frameSize) div frameSize * frameSize"
      by simp
    have "drop (availableSamples s div frameSize * frameSize) (pending s) =
          drop ((availableSamples s - frameSize) div frameSize * frameSize)
               (drop frameSize (pending s))"
      by (simp only: whole drop_drop add.commute)
    with ihp have rest: "pending (snd (drain frameSize s')) =
          drop (availableSamples s div frameSize * frameSize) (pending s)"
      by simp
    from whole have "take (availableSamples s div frameSize * frameSize) (pending s) =
               take frameSize (pending s) @
               take ((availableSamples s - frameSize) div frameSize * frameSize)
                    (drop frameSize (pending s))"
      by (simp only: take_add)
    moreover have "availableSamples s mod frameSize = (availableSamples s - frameSize) mod frameSize"
      using enough by (simp add: le_mod_geq)
    ultimately show ?thesis using d ih ihm rest iho by simp
  qed
qed

lemma deliver_pending:
  assumes "ring_ok s" and "availableSamples s + length (concat cs) \<le> bufferSize s"
  shows "fst (deliver (map AudioData cs) s) = replicate (length cs) (Inr ()) \<and>
         ring_ok (snd (deliver (map AudioData cs) s)) \<and>
         pending (snd (deliver (map AudioData cs) s)) = pending s @ concat cs \<and>
         availableSamples (snd (deliver (map AudioData cs) s))
           = availableSamples s + length (concat cs)"
  using assms
proof (induction cs arbitrary: s)
  case Nil
  then show ?case by simp
next
  case (Cons x cs)
  define s1 where "s1 = snd (onmessage (AudioData x) s)"
  have room: "availableSamples s + length x \<le> bufferSize s" using Cons.prems(2) by simp
  from onmessage_pending [OF Cons.prems(1) room]
  have r1: "onmessage (AudioData x) s = (Inr (), s1)" and ok1: "ring_ok s1"
    and p1: "pending s1 = pending s @ x"
    and a1: "availableSamples s1 = availableSamples s + length x"
    by (simp_all add: s1_def prod_eq_iff)
  have b1: "bufferSize s1 = bufferSize s" using onmessage_frame [of "AudioData x" s]
    by (simp add: s1_def)
  have "availableSamples s1 + length (concat cs) \<le> bufferSize s1"
    using Cons.prems(2) a1 b1 by simp
  from Cons.IH [OF ok1 this] show ?case
    using r1 p1 a1 by (simp add: case_prod_beta)
qed

lemma new_processor_ring_ok: "0 < n \<Longrightarrow> ring_ok (new_processor n)"
  by (simp add: ring_ok_def new_processor_def)

section \<open>Facts about the bridge's subscription\<close>

text \<open>A call that nothing interleaves with is \<open>start\<close>.\<close>

lemma start_uninterrupted:
  "(case start_begin deviceId s of
      (p0, s0) \<Rightarrow>
        (case settle env p0 s0 of
           (p1, s1) \<Rightarrow> (case settle env p1 s1 of (p2, s2) \<Rightarrow> settle env p2 s2)))
   = (Settled (fst (start deviceId env s)), snd (start deviceId env s))"
  by (simp add: start_begin_def start_subscribe_def start_continue_def settle_def start_def
      Let_def)

lemma start_consistent:
  "subscription_consistent s \<Longrightarrow> subscription_consistent (snd (start d env s))"
  by (auto simp: start_def Let_def subscription_consistent_def)

lemma start_succeeded_subscribed:
  "succeeded (fst (start d env s)) \<Longrightarrow> unlisten (snd (start d env s)) \<noteq> None"
  by (auto simp: start_def Let_def succeeded_def split: if_splits)

lemma start_keeps_subscription:
  "unlisten s \<noteq> None \<Longrightarrow>
     unlisten (snd (start d env s)) = unlisten s \<and> listeners (snd (start d env s)) = listeners s"
  by (auto simp: start_def Let_def)

lemma start_all_consistent:
  "subscription_consistent s \<Longrightarrow> subscription_consistent (snd (start_all cs s))"
proof (induction cs arbitrary: s)
  case Nil
  then show ?case by simp
next
  case (Cons c cs)
  obtain d env where c: "c = (d, env)" by (cases c)
  have "subscription_consistent (snd (start d env s))"
    using Cons.prems by (rule start_consistent)
  then have "subscription_consistent (snd (start_all cs (snd (start d env s))))"
    by (rule Cons.IH)
  then show ?case
    by (cases "start d env s"; cases "start_all cs (snd (start d env s))") (simp add: c)
qed

lemma start_all_subscribed:
  "cs \<noteq> [] \<Longrightarrow> list_all succeeded (fst (start_all cs s)) \<Longrightarrow>
     unlisten (snd (start_all cs s)) \<noteq> None"
proof (induction cs arbitrary: s)
  case Nil
  then show ?case by simp
next
  case (Cons c cs)
  obtain d env where c: "c = (d, env)" by (cases c)
  obtain r s1 where s1: "start d env s = (r, s1)" by (cases "start d env s")
  obtain rs s2 where s2: "start_all cs s1 = (rs, s2)" by (cases "start_all cs s1")
  from Cons.prems(2) have r: "succeeded r" and rs: "list_all succeeded rs"
    by (simp_all add: c s1 s2)
  show ?case
  proof (cases "cs = []")
    case True
    with r s1 start_succeeded_subscribed [of d env s] show ?thesis by (simp add: c)
  next
    case False
    from Cons.IH [OF False, of s1] rs s2 show ?thesis by (simp add: c s1)
  qed
qed

section \<open>The claims\<close>

text \<open>
  C1. Scenario A: capacity 10, the 12 samples 1..12 written in one write to an
  empty buffer leave \<open>availableSamples = 10\<close>, and a read of 10 samples should return
  3..12; after an overflow the reads should give the last \<open>capacity\<close> samples, oldest
  first. The code keeps the count right but does not move \<open>readIndex\<close> past the
  overwritten samples: the read returns 11, 12, 3, ..., 10. With the constants of the
  source (4800 and 128), 4800 zeros followed by 1, 2 make the next frame start with
  1, 2, although the oldest 128 samples still buffered are zeros.
\<close>

theorem overwrite_read_out_of_order:
  "availableSamples (snd (onmessage (AudioData [1, 2, 3, 4, 5, 6, 7, 8, 9, 10, 11, 12])
       (new_processor 10 :: int processor))) = 10
   \<and> fst (process_frame 10 (Some (replicate 10 0))
         (snd (onmessage (AudioData [1, 2, 3, 4, 5, 6, 7, 8, 9, 10, 11, 12])
            (new_processor 10 :: int processor))))
     = Inr (True, Some [11, 12, 3, 4, 5, 6, 7, 8, 9, 10])
   \<and> fst (process (Some (replicate 128 0))
         (snd (onmessage (AudioData (replicate 4800 0 @ [1, 2]))
            (constructor :: int processor))))
     = Inr (True, Some (1 # 2 # replicate 126 0))
   \<and> take 128 (drop 2 (replicate 4800 0 @ [1, 2::int])) = replicate 128 0"
  by (simp add: ring_defs process_def process_frame_def new_processor_def constructor_def)

text \<open>
  C2. Every transition operation changes the state only along a row of the transition
  table, and an operation that is illegal in the current state (or lacks its client)
  leaves the state unchanged and reports failure. As the code has it: the state part
  holds for all seven operations; a failure is reported (\<open>Some False\<close>) by
  \<^verbatim>\<open>startRecording\<close> and \<^verbatim>\<open>stopRecording\<close> only, the other five return nothing whether
  legal or not. Only \<^verbatim>\<open>reset\<close> clears the client, and no operation touches the server
  URL.
\<close>

theorem transitions_follow_table:
  "(state (snd (run op st)) = state st \<or> permitted st op = Some (state (snd (run op st)))) \<and>
   (permitted st op = None \<longrightarrow>
      state (snd (run op st)) = state st \<and>
      (op = StartRecording \<or> op = StopRecording \<longrightarrow> fst (run op st) = Some False)) \<and>
   (op \<noteq> StartRecording \<and> op \<noteq> StopRecording \<longrightarrow> fst (run op st) = None) \<and>
   (op \<noteq> StartRecording \<and> op \<noteq> StopRecording \<and> op \<noteq> Reset \<longrightarrow>
      client (snd (run op st)) = client st) \<and>
   (op = Reset \<longrightarrow> client (snd (run op st)) = None) \<and>
   serverUrl (snd (run op st)) = serverUrl st"
  by (cases op; cases "state st")
     (auto simp: startConnecting_def handleConnected_def handleDisconnected_def
        startRecording_def stopRecording_def handleResponse_def reset_def invoke_client_def
        permitted_def split: prod.splits sum.splits if_splits)

text \<open>Scenario C: idle, no client, \<^verbatim>\<open>startRecording\<close> returns false and the state stays idle.\<close>

theorem transitions_follow_table_witness:
  "permitted \<lparr>state = Idle, client = None, serverUrl = None\<rparr> StartRecording = None \<and>
   run StartRecording \<lparr>state = Idle, client = None, serverUrl = None\<rparr>
     = (Some False, \<lparr>state = Idle, client = None, serverUrl = None\<rparr>)"
  using transitions_follow_table [of StartRecording "\<lparr>state = Idle, client = None, serverUrl = None\<rparr>"]
  by (simp add: permitted_def startRecording_def)

text \<open>
  The claim as worded fails for the operations without a result: \<^verbatim>\<open>startConnecting\<close> is
  illegal in state idle, and returns what it returns when it is legal.
\<close>

theorem void_operation_reports_nothing:
  "permitted \<lparr>state = Idle, client = None, serverUrl = None\<rparr> StartConnecting = None \<and>
   fst (run StartConnecting \<lparr>state = Idle, client = None, serverUrl = None\<rparr>) \<noteq> Some False \<and>
   fst (run StartConnecting \<lparr>state = Idle, client = None, serverUrl = None\<rparr>)
     = fst (run StartConnecting initial_store)"
  by (simp add: permitted_def)

text \<open>
  C3. \<^verbatim>\<open>startRecording\<close> (from idle) and \<^verbatim>\<open>stopRecording\<close> (from recording), with a client:
  if one of the two client calls throws, the operation returns false and the state is
  unchanged; if none throws, it returns true, the state becomes recording (processing),
  and the client has received exactly the two calls of the operation, once each.
\<close>

theorem recording_transitions_atomic:
  "(state st = Idle \<and> client st = Some cl \<longrightarrow>
      (any_raises cl [SendClientMessage ''start-recording'', EnableMic True] \<longrightarrow>
         fst (startRecording st) = False \<and> state (snd (startRecording st)) = state st) \<and>
      (\<not> any_raises cl [SendClientMessage ''start-recording'', EnableMic True] \<longrightarrow>
         fst (startRecording st) = True \<and> state (snd (startRecording st)) = Recording \<and>
         client_calls (snd (startRecording st))
           = calls cl @ [SendClientMessage ''start-recording'', EnableMic True])) \<and>
   (state st = Recording \<and> client st = Some cl \<longrightarrow>
      (any_raises cl [EnableMic False, SendClientMessage ''stop-recording''] \<longrightarrow>
         fst (stopRecording st) = False \<and> state (snd (stopRecording st)) = state st) \<and>
      (\<not> any_raises cl [EnableMic False, SendClientMessage ''stop-recording''] \<longrightarrow>
         fst (stopRecording st) = True \<and> state (snd (stopRecording st)) = Processing \<and>
         client_calls (snd (stopRecording st))
           = calls cl @ [EnableMic False, SendClientMessage ''stop-recording'']))"
  by (simp add: startRecording_def stopRecording_def invoke_client_def client_calls_def)

text \<open>Scenario D, and one throwing client for each operation.\<close>

theorem recording_transitions_atomic_witness:
  "startRecording \<lparr>state = Idle, client = Some \<lparr>raises = (\<lambda>h c. False), calls = []\<rparr>, serverUrl = None\<rparr>
     = (True, \<lparr>state = Recording,
               client = Some \<lparr>raises = (\<lambda>h c. False),
                              calls = [SendClientMessage ''start-recording'', EnableMic True]\<rparr>,
               serverUrl = None\<rparr>)
   \<and> fst (startRecording \<lparr>state = Idle, client = Some \<lparr>raises = (\<lambda>h c. c = EnableMic True), calls = []\<rparr>, serverUrl = None\<rparr>) = False
   \<and> state (snd (startRecording \<lparr>state = Idle, client = Some \<lparr>raises = (\<lambda>h c. c = EnableMic True), calls = []\<rparr>, serverUrl = None\<rparr>)) = Idle
   \<and> fst (stopRecording \<lparr>state = Recording, client = Some \<lparr>raises = (\<lambda>h c. False), calls = []\<rparr>, serverUrl = None\<rparr>) = True
   \<and> state (snd (stopRecording \<lparr>state = Recording, client = Some \<lparr>raises = (\<lambda>h c. False), calls = []\<rparr>, serverUrl = None\<rparr>)) = Processing
   \<and> client_calls (snd (stopRecording \<lparr>state = Recording, client = Some \<lparr>raises = (\<lambda>h c. False), calls = []\<rparr>, serverUrl = None\<rparr>))
       = [EnableMic False, SendClientMessage ''stop-recording'']
   \<and> fst (stopRecording \<lparr>state = Recording, client = Some \<lparr>raises = (\<lambda>h c. c = SendClientMessage ''stop-recording''), calls = []\<rparr>, serverUrl = None\<rparr>) = False
   \<and> state (snd (stopRecording \<lparr>state = Recording, client = Some \<lparr>raises = (\<lambda>h c. c = SendClientMessage ''stop-recording''), calls = []\<rparr>, serverUrl = None\<rparr>)) = Recording"
  using
    recording_transitions_atomic [of "\<lparr>state = Idle, client = Some \<lparr>raises = (\<lambda>h c. False), calls = []\<rparr>, serverUrl = None\<rparr>" "\<lparr>raises = (\<lambda>h c. False), calls = []\<rparr>"]
    recording_transitions_atomic [of "\<lparr>state = Idle, client = Some \<lparr>raises = (\<lambda>h c. c = EnableMic True), calls = []\<rparr>, serverUrl = None\<rparr>" "\<lparr>raises = (\<lambda>h c. c = EnableMic True), calls = []\<rparr>"]
    recording_transitions_atomic [of "\<lparr>state = Recording, client = Some \<lparr>raises = (\<lambda>h c. False), calls = []\<rparr>, serverUrl = None\<rparr>" "\<lparr>raises = (\<lambda>h c. False), calls = []\<rparr>"]
    recording_transitions_atomic [of "\<lparr>state = Recording, client = Some \<lparr>raises = (\<lambda>h c. c = SendClientMessage ''stop-recording''), calls = []\<rparr>, serverUrl = None\<rparr>" "\<lparr>raises = (\<lambda>h c. c = SendClientMessage ''stop-recording''), calls = []\<rparr>"]
  by (simp add: startRecording_def invoke_client_def)

text \<open>
  C4. \<open>availableSamples\<close> never exceeds the capacity, and after any write of \<open>len\<close>
  samples it is \<open>min (previous + len) capacity\<close>. The bound holds for every sequence of
  messages (\<open>deliver_well_formed\<close>) and the equation for every write that returns
  (\<open>onmessage_available\<close>); a write that throws (see C7) leaves the count as it was. On a
  fresh processor a chunk of 9601 samples leaves 0 where the claim says 4800.
\<close>

theorem available_after_raising_write:
  "availableSamples (snd (onmessage (AudioData (replicate 9601 0)) (constructor :: int processor))) = 0
   \<and> min (availableSamples (constructor :: int processor) + length (replicate 9601 (0::int)))
          (bufferSize (constructor :: int processor)) = 4800"
  by (simp add: ring_defs constructor_def new_processor_def)

text \<open>
  C5. With fewer than \<open>frameSize\<close> samples buffered, a read fills the frame with zeros,
  returns normally and leaves the processor (so \<open>readIndex\<close> and \<open>availableSamples\<close>)
  unchanged.
\<close>

theorem underrun_silence:
  assumes "availableSamples s < frameSize" and "length ch = frameSize"
  shows "process_frame frameSize (Some ch) s = (Inr (True, Some (replicate frameSize 0)), s)"
  using assms by (simp add: process_frame_def)

text \<open>The source's frame of 128 on a fresh processor, and Scenario B (a read of 4).\<close>

theorem underrun_silence_witness:
  "process (Some (replicate 128 1)) (constructor :: int processor)
     = (Inr (True, Some (replicate 128 0)), constructor)
   \<and> process_frame 4 (Some [7, 7, 7, 7]) (new_processor 10 :: int processor)
     = (Inr (True, Some [0, 0, 0, 0]), new_processor 10)"
proof -
  have a: "availableSamples (constructor :: int processor) < 128"
    by (simp add: constructor_def new_processor_def)
  have b: "length (replicate 128 (1::int)) = 128" by simp
  have c: "availableSamples (new_processor 10 :: int processor) < 4"
    by (simp add: new_processor_def)
  have d: "length [7, 7, 7, 7::int] = 4" by simp
  have e: "replicate 4 (0::int) = [0, 0, 0, 0]" by (simp add: numeral_eq_Suc)
  show ?thesis
    using underrun_silence [OF a b] underrun_silence [OF c d] e
    by (simp add: process_def)
qed

text \<open>
  C6. Writes into an empty buffer that total at most the capacity, then a full drain by
  fixed-size reads, should give back the written samples. As the code has it, for an
  empty buffer whose indices are in step (as the constructor leaves them): every write
  returns normally, and the drain gives back the written samples up to the last whole
  frame, that is the first \<open>(total div frameSize) * frameSize\<close> of them; all of them
  when the frame size divides the total. The other \<open>total mod frameSize\<close> samples stay
  buffered: they are what the processor still holds for the consumer after the drain.
\<close>

theorem drain_reproduces_whole_frames:
  assumes "ring_ok s" and "availableSamples s = 0"
    and "length (concat cs) \<le> bufferSize s"
  shows "fst (deliver (map AudioData cs) s) = replicate (length cs) (Inr ()) \<and>
         fst (drain frameSize (snd (deliver (map AudioData cs) s)))
           = take (length (concat cs) div frameSize * frameSize) (concat cs) \<and>
         (0 < frameSize \<and> frameSize dvd length (concat cs) \<longrightarrow>
            fst (drain frameSize (snd (deliver (map AudioData cs) s))) = concat cs) \<and>
         availableSamples (snd (drain frameSize (snd (deliver (map AudioData cs) s))))
           = length (concat cs) mod frameSize \<and>
         pending (snd (drain frameSize (snd (deliver (map AudioData cs) s))))
           = drop (length (concat cs) div frameSize * frameSize) (concat cs)"
proof -
  let ?s = "snd (deliver (map AudioData cs) s)"
  have room: "availableSamples s + length (concat cs) \<le> bufferSize s" using assms by simp
  have e: "pending s = []" using assms(2) by (simp add: pending_def)
  from deliver_pending [OF assms(1) room]
  have r: "fst (deliver (map AudioData cs) s) = replicate (length cs) (Inr ())"
    and ok: "ring_ok ?s" and p: "pending ?s = concat cs"
    and a: "availableSamples ?s = length (concat cs)"
    using assms(2) e by simp_all
  from drain_pending [OF ok, of frameSize]
  have d: "fst (drain frameSize ?s) = take (length (concat cs) div frameSize * frameSize) (concat cs)"
    and m: "availableSamples (snd (drain frameSize ?s)) = length (concat cs) mod frameSize"
    and q: "pending (snd (drain frameSize ?s))
              = drop (length (concat cs) div frameSize * frameSize) (concat cs)"
    by (simp_all add: a p)
  have "fst (drain frameSize ?s) = concat cs" if "frameSize dvd length (concat cs)"
  proof -
    from that have "length (concat cs) div frameSize * frameSize = length (concat cs)" by simp
    with d show ?thesis by simp
  qed
  with r d m q show ?thesis by blast
qed

text \<open>
  Eight samples in two chunks and frames of 4: all of them come back. Nine samples: the
  first eight come back and the ninth stays buffered.
\<close>

theorem drain_reproduces_whole_frames_witness:
  "fst (drain 4 (snd (deliver (map AudioData [[1, 2, 3], [4, 5, 6, 7, 8::int]]) (new_processor 10))))
     = [1, 2, 3, 4, 5, 6, 7, 8]
   \<and> fst (drain 4 (snd (deliver (map AudioData [[1, 2, 3], [4, 5, 6, 7, 8, 9::int]]) (new_processor 10))))
     = [1, 2, 3, 4, 5, 6, 7, 8]
   \<and> availableSamples (snd (drain 4 (snd (deliver (map AudioData [[1, 2, 3], [4, 5, 6, 7, 8, 9::int]])
         (new_processor 10))))) = 1
   \<and> pending (snd (drain 4 (snd (deliver (map AudioData [[1, 2, 3], [4, 5, 6, 7, 8, 9::int]])
         (new_processor 10))))) = [9]"
proof -
  have a: "ring_ok (new_processor 10 :: int processor)" by (simp add: new_processor_ring_ok)
  have b: "availableSamples (new_processor 10 :: int processor) = 0" by (simp add: new_processor_def)
  have c: "length (concat [[1, 2, 3], [4, 5, 6, 7, 8::int]]) \<le> bufferSize (new_processor 10 :: int processor)"
    by (simp add: new_processor_def)
  have d: "length (concat [[1, 2, 3], [4, 5, 6, 7, 8, 9::int]]) \<le> bufferSize (new_processor 10 :: int processor)"
    by (simp add: new_processor_def)
  show ?thesis
    using drain_reproduces_whole_frames [OF a b c, of 4]
      drain_reproduces_whole_frames [OF a b d, of 4]
    by simp
qed

text \<open>
  The claim as worded fails when the total is not a multiple of the frame size: three
  samples written to a fresh processor are never read by a drain with frames of 128.
\<close>

theorem partial_frame_stays_buffered:
  "fst (deliver (map AudioData [[1, 2, 3::int]]) constructor) = [Inr ()]
   \<and> availableSamples (snd (deliver (map AudioData [[1, 2, 3::int]]) constructor)) = 3
   \<and> fst (drain 128 (snd (deliver (map AudioData [[1, 2, 3::int]]) constructor))) = []
   \<and> fst (drain 128 (snd (deliver (map AudioData [[1, 2, 3::int]]) constructor)))
       \<noteq> concat [[1, 2, 3]]"
  by (simp add: onmessage_def constructor_def new_processor_def typed_array_set_def
      subarray_def Let_def drain_stop)

text \<open>
  Why the statement asks for indices in step: after an overflow (capacity 10, twelve
  samples) and a drain the buffer is empty with \<open>writeIndex = 2\<close> and \<open>readIndex = 0\<close>;
  five samples written then come back behind two stale ones.
\<close>

lemma empty_after_overflow_out_of_step:
  "snd (drain 5 (snd (onmessage (AudioData [1, 2, 3, 4, 5, 6, 7, 8, 9, 10, 11, 12])
          (new_processor 10 :: int processor))))
     = \<lparr>bufferSize = 10, buffer = [11, 12, 3, 4, 5, 6, 7, 8, 9, 10], writeIndex = 2,
        readIndex = 0, availableSamples = 0\<rparr>
   \<and> fst (drain 5 (snd (onmessage (AudioData [21, 22, 23, 24, 25])
          \<lparr>bufferSize = 10, buffer = [11, 12, 3, 4, 5, 6, 7, 8, 9, 10::int], writeIndex = 2,
           readIndex = 0, availableSamples = 0\<rparr>)))
     = [11, 12, 21, 22, 23]"
  by (simp add: drain.simps ring_defs process_frame_def new_processor_def)

text \<open>
  C7. The write never raises, whatever the chunk length. In the code the second copy
  throws a \<^verbatim>\<open>RangeError\<close> when the wrapped part of the chunk is longer than the buffer
  (\<open>onmessage_raises_iff\<close>): on a fresh processor, a chunk of 9601 samples.
\<close>

theorem write_raises_on_long_chunk:
  "fst (onmessage (AudioData (replicate 9601 0)) (constructor :: int processor)) = Inl RangeError"
  by (simp add: ring_defs constructor_def new_processor_def)

text \<open>
  C8. A failing \<^verbatim>\<open>start\<close> reports an error and should leave the subscription as it was
  before the call. As the code has it: the error is reported; the subscription is as
  before when resuming the audio context fails, when registering the listener fails,
  and when the capture backend rejects the call while a subscription was already held;
  when the backend rejects the call and no subscription was held, the listener
  registered by this very call stays registered.
\<close>

theorem start_failure_reported:
  "(audioContextState s = Suspended \<and> resume_rejects env \<longrightarrow>
      start deviceId env s = (Inl ResumeRejected, s)) \<and>
   (\<not> (audioContextState s = Suspended \<and> resume_rejects env) \<and>
    unlisten s = None \<and> listen_rejects env \<longrightarrow>
      fst (start deviceId env s) = Inl ListenRejected \<and>
      unlisten (snd (start deviceId env s)) = None \<and>
      listeners (snd (start deviceId env s)) = listeners s) \<and>
   (\<not> (audioContextState s = Suspended \<and> resume_rejects env) \<and>
    \<not> (unlisten s = None \<and> listen_rejects env) \<and> start_native_mic_rejects env \<longrightarrow>
      fst (start deviceId env s) = Inl InvokeRejected \<and>
      (unlisten s \<noteq> None \<longrightarrow>
         unlisten (snd (start deviceId env s)) = unlisten s \<and>
         listeners (snd (start deviceId env s)) = listeners s) \<and>
      (unlisten s = None \<longrightarrow>
         unlisten (snd (start deviceId env s)) = Some (nextListener s) \<and>
         listeners (snd (start deviceId env s)) = listeners s @ [nextListener s]))"
  by (auto simp: start_def Let_def)

theorem start_failure_reported_witness:
  "start None \<lparr>resume_rejects = True, listen_rejects = False, start_native_mic_rejects = False\<rparr>
         (createNativeAudioBridge Suspended)
     = (Inl ResumeRejected, createNativeAudioBridge Suspended)
   \<and> fst (start None \<lparr>resume_rejects = False, listen_rejects = True, start_native_mic_rejects = False\<rparr>
         (createNativeAudioBridge Suspended)) = Inl ListenRejected
   \<and> listeners (snd (start None \<lparr>resume_rejects = False, listen_rejects = True, start_native_mic_rejects = False\<rparr>
         (createNativeAudioBridge Suspended))) = []
   \<and> fst (start (Some ''mic'') \<lparr>resume_rejects = False, listen_rejects = False, start_native_mic_rejects = True\<rparr>
         \<lparr>audioContextState = Running, unlisten = Some 0, listeners = [0], nextListener = 1,
           invoked = [StartNativeMic None]\<rparr>) = Inl InvokeRejected
   \<and> listeners (snd (start (Some ''mic'') \<lparr>resume_rejects = False, listen_rejects = False, start_native_mic_rejects = True\<rparr>
         \<lparr>audioContextState = Running, unlisten = Some 0, listeners = [0], nextListener = 1,
           invoked = [StartNativeMic None]\<rparr>)) = [0]"
  using
    start_failure_reported [of "createNativeAudioBridge Suspended"
      "\<lparr>resume_rejects = True, listen_rejects = False, start_native_mic_rejects = False\<rparr>" None]
    start_failure_reported [of "createNativeAudioBridge Suspended"
      "\<lparr>resume_rejects = False, listen_rejects = True, start_native_mic_rejects = False\<rparr>" None]
    start_failure_reported [of "\<lparr>audioContextState = Running, unlisten = Some 0, listeners = [0],
        nextListener = 1, invoked = [StartNativeMic None]\<rparr>"
      "\<lparr>resume_rejects = False, listen_rejects = False, start_native_mic_rejects = True\<rparr>" "Some ''mic''"]
  by (simp add: createNativeAudioBridge_def)

text \<open>
  The claim as worded fails on a fresh bridge whose backend rejects the device: the call
  fails, and the listener it registered is still there.
\<close>

theorem start_failure_keeps_subscription:
  "fst (start None \<lparr>resume_rejects = False, listen_rejects = False, start_native_mic_rejects = True\<rparr>
         (createNativeAudioBridge Suspended)) = Inl InvokeRejected \<and>
   listeners (createNativeAudioBridge Suspended) = [] \<and>
   unlisten (createNativeAudioBridge Suspended) = None \<and>
   listeners (snd (start None \<lparr>resume_rejects = False, listen_rejects = False, start_native_mic_rejects = True\<rparr>
         (createNativeAudioBridge Suspended))) = [0] \<and>
   unlisten (snd (start None \<lparr>resume_rejects = False, listen_rejects = False, start_native_mic_rejects = True\<rparr>
         (createNativeAudioBridge Suspended))) = Some 0"
  by (simp add: start_def createNativeAudioBridge_def)

text \<open>
  C9. \<^verbatim>\<open>start\<close> should be idempotent for the subscription: after any sequence of
  successful \<^verbatim>\<open>start\<close> calls one listener is registered, so that an inbound chunk
  is written to the ring buffer once, and \<^verbatim>\<open>stop\<close> removes it. The code tests \<^verbatim>\<open>unlisten\<close>
  before it awaits \<^verbatim>\<open>listen\<close> and assigns it afterwards. Two calls issued one after the
  other on a fresh bridge, before the first has settled, both find \<^verbatim>\<open>unlisten\<close> unset:
  both succeed, two listeners are registered, a chunk of three samples is written twice
  (six samples buffered), and \<^verbatim>\<open>stop\<close> removes only the listener registered last.
\<close>

theorem overlapping_starts_subscribe_twice:
  "run_events
     [Call None, Call None, Settle 0 False, Settle 1 False, Settle 0 False, Settle 1 False]
     ([], createNativeAudioBridge Running)
   = ([Settled (Inr ()), Settled (Inr ())],
      \<lparr>audioContextState = Running, unlisten = Some 1, listeners = [0, 1], nextListener = 2,
       invoked = [StartNativeMic None, StartNativeMic None]\<rparr>)
   \<and> emit [1, 2, 3::int]
        \<lparr>audioContextState = Running, unlisten = Some 1, listeners = [0, 1], nextListener = 2,
         invoked = [StartNativeMic None, StartNativeMic None]\<rparr>
       = [AudioData [1, 2, 3], AudioData [1, 2, 3]]
   \<and> availableSamples (snd (deliver [AudioData [1, 2, 3], AudioData [1, 2, 3::int]] constructor)) = 6
   \<and> listeners (stop
        \<lparr>audioContextState = Running, unlisten = Some 1, listeners = [0, 1], nextListener = 2,
         invoked = [StartNativeMic None, StartNativeMic None]\<rparr>) = [0]
   \<and> unlisten (stop
        \<lparr>audioContextState = Running, unlisten = Some 1, listeners = [0, 1], nextListener = 2,
         invoked = [StartNativeMic None, StartNativeMic None]\<rparr>) = None"
  by (simp add: start_begin_def start_subscribe_def start_continue_def
      createNativeAudioBridge_def emit_def stop_def ring_defs constructor_def new_processor_def)

text \<open>
  When every call has settled before the next is issued (\<open>start_uninterrupted\<close>), the
  guard does its work: after any non-empty sequence of successful calls exactly one
  listener is registered, a further call registers no second one, \<^verbatim>\<open>stop\<close> removes it
  and a successful call after \<^verbatim>\<open>stop\<close> registers one again.
\<close>

lemma awaited_starts_subscribe_once:
  assumes "subscription_consistent s" and "cs \<noteq> []"
    and "list_all succeeded (fst (start_all cs s))"
  shows "\<exists>h. listeners (snd (start_all cs s)) = [h] \<and>
             unlisten (snd (start_all cs s)) = Some h \<and>
             length (emit payload (snd (start_all cs s))) = 1 \<and>
             listeners (snd (start d env (snd (start_all cs s)))) = [h] \<and>
             listeners (stop (snd (start_all cs s))) = [] \<and>
             unlisten (stop (snd (start_all cs s))) = None \<and>
             (succeeded (fst (start d env (stop (snd (start_all cs s))))) \<longrightarrow>
                length (listeners (snd (start d env (stop (snd (start_all cs s)))))) = 1)"
proof -
  let ?s = "snd (start_all cs s)"
  have cons: "subscription_consistent ?s" using assms(1) by (rule start_all_consistent)
  have "unlisten ?s \<noteq> None" using assms(2,3) by (rule start_all_subscribed)
  then obtain h where h: "unlisten ?s = Some h" by blast
  with cons have l: "listeners ?s = [h]" by (simp add: subscription_consistent_def)
  have again: "listeners (snd (start d env ?s)) = [h]"
    using start_keeps_subscription [of ?s d env] h l by simp
  have st: "listeners (stop ?s) = []" "unlisten (stop ?s) = None"
    using h l by (simp_all add: stop_def)
  have re: "succeeded (fst (start d env (stop ?s))) \<longrightarrow>
            length (listeners (snd (start d env (stop ?s)))) = 1"
    using st by (auto simp: start_def Let_def succeeded_def)
  show ?thesis using h l again st re by (simp add: emit_def)
qed

lemma awaited_starts_subscribe_once_example:
  "listeners (snd (start_all
       [(None, \<lparr>resume_rejects = False, listen_rejects = False, start_native_mic_rejects = False\<rparr>),
        (Some ''mic'', \<lparr>resume_rejects = False, listen_rejects = False, start_native_mic_rejects = False\<rparr>)]
       (createNativeAudioBridge Suspended))) = [0]
   \<and> emit [1, 2, 3::int] (snd (start_all
       [(None, \<lparr>resume_rejects = False, listen_rejects = False, start_native_mic_rejects = False\<rparr>),
        (Some ''mic'', \<lparr>resume_rejects = False, listen_rejects = False, start_native_mic_rejects = False\<rparr>)]
       (createNativeAudioBridge Suspended))) = [AudioData [1, 2, 3]]"
proof -
  let ?ok = "\<lparr>resume_rejects = False, listen_rejects = False, start_native_mic_rejects = False\<rparr>"
  let ?cs = "[(None, ?ok), (Some ''mic'', ?ok)]"
  have a: "subscription_consistent (createNativeAudioBridge Suspended)"
    by (simp add: subscription_consistent_def createNativeAudioBridge_def)
  have b: "?cs \<noteq> []" by simp
  have c: "list_all succeeded (fst (start_all ?cs (createNativeAudioBridge Suspended)))"
    by (simp add: start_def createNativeAudioBridge_def succeeded_def)
  show ?thesis
    using awaited_starts_subscribe_once [OF a b c, of "[1, 2, 3::int]" None ?ok]
    by (simp add: start_def createNativeAudioBridge_def emit_def)
qed

text \<open>
  C10. A write changes nothing but the buffer, \<open>writeIndex\<close> and \<open>availableSamples\<close>;
  \<open>readIndex\<close> stays where it was, also when the chunk overwrites samples not yet read,
  and also when the write throws.
\<close>

theorem write_keeps_readIndex:
  "readIndex (snd (onmessage m s)) = readIndex s \<and>
   bufferSize (snd (onmessage m s)) = bufferSize s \<and>
   (\<exists>b w a. snd (onmessage m s) = s\<lparr>buffer := b, writeIndex := w, availableSamples := a\<rparr>)"
proof -
  let ?s' = "snd (onmessage m s)"
  have f: "readIndex ?s' = readIndex s" "bufferSize ?s' = bufferSize s"
    using onmessage_frame [of m s] by simp_all
  have "?s' = s\<lparr>buffer := buffer ?s', writeIndex := writeIndex ?s',
                  availableSamples := availableSamples ?s'\<rparr>"
    by (rule processor.equality) (simp_all add: f)
  then have "\<exists>b w a. ?s' = s\<lparr>buffer := b, writeIndex := w, availableSamples := a\<rparr>"
    by blast
  with f show ?thesis by blast
qed

text \<open>The overwrite of Scenario A: the read position is still 0 under the new samples.\<close>

theorem write_keeps_readIndex_witness:
  "readIndex (snd (onmessage (AudioData [1, 2, 3, 4, 5, 6, 7, 8, 9, 10, 11, 12])
       (new_processor 10 :: int processor))) = 0
   \<and> buffer (snd (onmessage (AudioData [1, 2, 3, 4, 5, 6, 7, 8, 9, 10, 11, 12])
       (new_processor 10 :: int processor))) = [11, 12, 3, 4, 5, 6, 7, 8, 9, 10]"
  using write_keeps_readIndex [of "AudioData [1, 2, 3, 4, 5, 6, 7, 8, 9, 10, 11, 12]"
      "new_processor 10 :: int processor"]
  by (simp add: ring_defs new_processor_def)

end
